theory Spec2Isabelle
  imports Complex_Main "HOL-Library.Sublist"
begin

section \<open>Python strings\<close>

text \<open>
  A Python \<^verbatim>\<open>str\<close> is a sequence of Unicode code points, and \<^verbatim>\<open>len\<close>,
  \<^verbatim>\<open>split\<close>, \<^verbatim>\<open>strip\<close> and \<^verbatim>\<open>re\<close> all work on code points. A string is
  therefore modelled as a list of code points, each a natural number; \<open>str\<close> reads an
  Isabelle string literal as such a list.
\<close>

type_synonym codepoint = nat
type_synonym pystr = "codepoint list"

definition str :: "string \<Rightarrow> pystr" where
  "str s = map (of_char :: char \<Rightarrow> nat) s"

text \<open>
  The whitespace of \<^verbatim>\<open>str.split()\<close> and \<^verbatim>\<open>str.strip()\<close> with no argument:
  the code points for which \<^verbatim>\<open>str.isspace\<close> holds.
\<close>

definition isspace :: "codepoint \<Rightarrow> bool" where
  "isspace c \<longleftrightarrow>
     (0x09 \<le> c \<and> c \<le> 0x0D) \<or> (0x1C \<le> c \<and> c \<le> 0x1F) \<or> c = 0x20 \<or>
     c = 0x85 \<or> c = 0xA0 \<or> c = 0x1680 \<or> (0x2000 \<le> c \<and> c \<le> 0x200A) \<or>
     c = 0x2028 \<or> c = 0x2029 \<or> c = 0x202F \<or> c = 0x205F \<or> c = 0x3000"

text \<open>\<^verbatim>\<open>text.replace(old, new)\<close> for one-character \<open>old\<close> and \<open>new\<close>.\<close>

definition replace_char :: "codepoint \<Rightarrow> codepoint \<Rightarrow> pystr \<Rightarrow> pystr" where
  "replace_char old new text = map (\<lambda>c. if c = old then new else c) text"

text \<open>
  \<^verbatim>\<open>s.split()\<close>: skip whitespace, then take the word up to the next whitespace.
\<close>

function split_ws :: "pystr \<Rightarrow> pystr list" where
  "split_ws [] = []"
| "split_ws (c # cs) =
     (if isspace c then split_ws cs
      else takeWhile (\<lambda>x. \<not> isspace x) (c # cs) # split_ws (dropWhile (\<lambda>x. \<not> isspace x) cs))"
  by pat_completeness auto
termination
  by (relation "measure length") (simp_all add: length_dropWhile_le less_Suc_eq_le)

text \<open>\<^verbatim>\<open>s.strip()\<close>: drop the leading and the trailing whitespace.\<close>

definition strip :: "pystr \<Rightarrow> pystr" where
  "strip s = rev (dropWhile isspace (rev (dropWhile isspace s)))"

text \<open>\<^verbatim>\<open>sep.join(parts)\<close>.\<close>

fun join :: "pystr \<Rightarrow> pystr list \<Rightarrow> pystr" where
  "join sep [] = []"
| "join sep [x] = x"
| "join sep (x # y # ys) = x @ sep @ join sep (y # ys)"

section \<open>The regular expression of the sentence extraction\<close>

text \<open>
  The pattern \<^verbatim>\<open>[^.!?]*[.!?]\<close>. \<open>terminal\<close> is the class \<^verbatim>\<open>[.!?]\<close>; the negated
  class \<^verbatim>\<open>[^.!?]\<close> is every other code point, newline included.
\<close>

definition terminal :: "codepoint \<Rightarrow> bool" where
  "terminal c \<longleftrightarrow> c = 0x2E \<or> c = 0x21 \<or> c = 0x3F"

text \<open>
  A match of the pattern at the start of the text, as the backtracking matcher of
  \<^verbatim>\<open>re\<close> finds it: the greedy star takes the next code point when it is in the
  negated class and the rest of the pattern is tried behind it; when that fails, the star
  stops here and the code point must be in \<^verbatim>\<open>[.!?]\<close>. The result is the length of
  the match.
\<close>

fun match_sentence :: "pystr \<Rightarrow> nat option" where
  "match_sentence [] = None"
| "match_sentence (c # cs) =
     (if \<not> terminal c then
        (case match_sentence cs of
           Some n \<Rightarrow> Some (Suc n)
         | None \<Rightarrow> if terminal c then Some 1 else None)
      else Some 1)"

text \<open>
  \<^verbatim>\<open>re.findall\<close>: scan from the left; a match is emitted and the scan goes on behind
  it, a failure moves the scan one code point to the right. The pattern matches no empty
  string, so nothing is emitted at the end of the text.
\<close>

function findall :: "pystr \<Rightarrow> pystr list" where
  "findall [] = []"
| "findall (c # cs) =
     (case match_sentence (c # cs) of
        None \<Rightarrow> findall cs
      | Some n \<Rightarrow> take n (c # cs) # findall (drop n (c # cs)))"
  by pat_completeness auto
termination
proof (relation "measure length")
  fix c cs n
  assume m: "match_sentence (c # cs) = Some n"
  have "0 < k" if "match_sentence xs = Some k" for xs k
    using that by (induction xs arbitrary: k) (auto split: if_splits option.splits)
  from this [OF m] show "(drop n (c # cs), c # cs) \<in> measure length" by simp
qed simp_all

section \<open>The notebook\<close>

text \<open>
  \<^verbatim>\<open>preprocess_text(text, min_length)\<close>, statement by statement; \<open>0x0A\<close> is the
  newline, \<open>0x0D\<close> the carriage return and \<open>0x20\<close> the space.
\<close>

definition preprocess_text :: "pystr \<Rightarrow> int \<Rightarrow> pystr" where
  "preprocess_text text min_length =
     (let text = replace_char 0x0A 0x20 text;
          text = replace_char 0x0D 0x20 text;
          sentences = findall text;
          filtered_sentences =
            [strip sentence. sentence \<leftarrow> sentences,
               min_length \<le> int (length (split_ws sentence))]
      in join [0x20] filtered_sentences)"

text \<open>The call \<^verbatim>\<open>preprocess_text(book_text)\<close>, with \<^verbatim>\<open>min_length\<close> at its default.\<close>

definition preprocess_text_default :: "pystr \<Rightarrow> pystr" where
  "preprocess_text_default text = preprocess_text text 5"

text \<open>
  The values of the local variables of \<^verbatim>\<open>preprocess_text\<close>: \<open>normalized\<close> is
  \<^verbatim>\<open>text\<close> after the two replacements, \<open>sentences\<close> is the list \<^verbatim>\<open>sentences\<close>,
  \<open>word_count\<close> is \<^verbatim>\<open>len(sentence.split())\<close> and \<open>filtered_sentences\<close> is the list
  \<^verbatim>\<open>filtered_sentences\<close>.
\<close>

definition normalized :: "pystr \<Rightarrow> pystr" where
  "normalized text = replace_char 0x0D 0x20 (replace_char 0x0A 0x20 text)"

definition sentences :: "pystr \<Rightarrow> pystr list" where
  "sentences text = findall (normalized text)"

definition word_count :: "pystr \<Rightarrow> int" where
  "word_count s = int (length (split_ws s))"

definition filtered_sentences :: "pystr \<Rightarrow> int \<Rightarrow> pystr list" where
  "filtered_sentences text min_length =
     [strip sentence. sentence \<leftarrow> sentences text, min_length \<le> word_count sentence]"

text \<open>
  The shape of a sentence: a run of code points outside \<^verbatim>\<open>[.!?]\<close>, then one code
  point of \<^verbatim>\<open>[.!?]\<close>.
\<close>

definition is_sentence :: "pystr \<Rightarrow> bool" where
  "is_sentence s \<longleftrightarrow>
     s \<noteq> [] \<and> terminal (last s) \<and> list_all (\<lambda>c. \<not> terminal c) (butlast s)"

text \<open>
  The keyword arguments of the call \<^verbatim>\<open>SDPMChunker(...)\<close>. The float literal
  \<^verbatim>\<open>0.3\<close> is modelled by the decimal number it is written as.
\<close>

record chunker_config =
  embedding_model :: string
  similarity_threshold :: real
  skip_window :: int
  chunk_size :: int

definition chunker :: chunker_config where
  "chunker =
     \<lparr>embedding_model = ''minishlab/potion-base-8M'',
      similarity_threshold = 0.3,
      skip_window = 5,
      chunk_size = 256\<rparr>"

section \<open>The function in terms of its local variables\<close>

lemma filtered_sentences_eq:
  "filtered_sentences text m = map strip (filter (\<lambda>s. m \<le> word_count s) (sentences text))"
proof -
  have "concat (map (\<lambda>s. if P s then [f s] else []) xs) = map f (filter P xs)"
    for P :: "pystr \<Rightarrow> bool" and f :: "pystr \<Rightarrow> pystr" and xs
    by (induction xs) simp_all
  then show ?thesis by (simp add: filtered_sentences_def)
qed

lemma preprocess_text_eq:
  "preprocess_text text m = join [0x20] (filtered_sentences text m)"
  by (simp add: preprocess_text_def filtered_sentences_def sentences_def normalized_def
      word_count_def)

lemma normalized_map:
  "normalized text = map (\<lambda>c. if c = 0x0A \<or> c = 0x0D then 0x20 else c) text"
  by (simp add: normalized_def replace_char_def)

lemma normalized_append: "normalized (xs @ ys) = normalized xs @ normalized ys"
  by (simp add: normalized_map)

lemma normalized_no_terminal:
  "list_all (\<lambda>c. \<not> terminal c) xs \<Longrightarrow> list_all (\<lambda>c. \<not> terminal c) (normalized xs)"
  by (induction xs) (simp_all add: normalized_map terminal_def)

lemma replace_char_absent: "old \<notin> set xs \<Longrightarrow> replace_char old new xs = xs"
  by (induction xs) (simp_all add: replace_char_def)

section \<open>The matcher and the scan\<close>

lemma match_sentence_None_iff:
  "match_sentence xs = None \<longleftrightarrow> list_all (\<lambda>c. \<not> terminal c) xs"
  by (induction xs) (auto split: option.splits)

lemma match_sentence_run:
  "list_all (\<lambda>c. \<not> terminal c) run \<Longrightarrow> terminal t \<Longrightarrow>
     match_sentence (run @ t # rest) = Some (Suc (length run))"
  by (induction run) simp_all

lemma findall_no_terminal: "list_all (\<lambda>c. \<not> terminal c) xs \<Longrightarrow> findall xs = []"
proof (induction xs)
  case Nil
  show ?case by simp
next
  case (Cons c cs)
  from Cons.prems have "match_sentence (c # cs) = None"
    by (simp only: match_sentence_None_iff)
  moreover from Cons have "findall cs = []" by simp
  ultimately show ?case by simp
qed

lemma is_sentence_snoc:
  "is_sentence s \<longleftrightarrow>
     (\<exists>run t. s = run @ [t] \<and> terminal t \<and> list_all (\<lambda>c. \<not> terminal c) run)"
  unfolding is_sentence_def by (cases s rule: rev_cases) auto

lemma match_sentence_take:
  "match_sentence xs = Some n \<Longrightarrow> is_sentence (take n xs)"
proof (induction xs arbitrary: n)
  case Nil
  then show ?case by simp
next
  case (Cons c cs)
  show ?case
  proof (cases "terminal c")
    case True
    with Cons.prems show ?thesis by (auto simp: is_sentence_def)
  next
    case False
    with Cons.prems obtain k where k: "match_sentence cs = Some k" and n: "n = Suc k"
      by (auto split: option.splits)
    from Cons.IH [OF k] have "is_sentence (take k cs)" .
    then obtain run t where "take k cs = run @ [t]" "terminal t"
      "list_all (\<lambda>c. \<not> terminal c) run"
      by (auto simp: is_sentence_snoc)
    then have "take n (c # cs) = (c # run) @ [t] \<and> terminal t \<and>
        list_all (\<lambda>c. \<not> terminal c) (c # run)"
      using False n by simp
    then show ?thesis unfolding is_sentence_snoc by blast
  qed
qed

lemma findall_sentence_append:
  assumes "is_sentence s"
  shows "findall (s @ rest) = s # findall rest"
proof -
  from assms obtain run t where s: "s = run @ [t]" and t: "terminal t"
    and run: "list_all (\<lambda>c. \<not> terminal c) run"
    by (auto simp: is_sentence_snoc)
  have m: "match_sentence (s @ rest) = Some (Suc (length run))"
    using match_sentence_run [OF run t] by (simp add: s)
  obtain c cs where c: "s @ rest = c # cs" using s by (cases "s @ rest") auto
  have "findall (c # cs) =
      take (Suc (length run)) (c # cs) # findall (drop (Suc (length run)) (c # cs))"
    using m unfolding c by (simp del: take_Suc_Cons drop_Suc_Cons)
  then show ?thesis unfolding c [symmetric] by (simp add: s)
qed

lemma findall_concat:
  "list_all is_sentence ss \<Longrightarrow> findall (concat ss @ rest) = ss @ findall rest"
  by (induction ss) (simp_all add: findall_sentence_append)

lemma findall_decompose:
  "list_all is_sentence (findall xs) \<and>
   (\<exists>rest. xs = concat (findall xs) @ rest \<and> list_all (\<lambda>c. \<not> terminal c) rest)"
proof (induction xs rule: findall.induct)
  case 1
  show ?case by simp
next
  case (2 c cs)
  show ?case
  proof (cases "match_sentence (c # cs)")
    case None
    then have nt: "list_all (\<lambda>c. \<not> terminal c) (c # cs)"
      by (simp only: match_sentence_None_iff)
    then have "findall (c # cs) = []" by (rule findall_no_terminal)
    with nt show ?thesis by simp
  next
    case (Some n)
    have fa: "findall (c # cs) = take n (c # cs) # findall (drop n (c # cs))"
      using Some by simp
    have sent: "is_sentence (take n (c # cs))"
      using Some by (rule match_sentence_take)
    from "2.IH"(2) [OF Some] obtain rest where
      ih1: "list_all is_sentence (findall (drop n (c # cs)))" and
      ih2: "drop n (c # cs) = concat (findall (drop n (c # cs))) @ rest" and
      ih3: "list_all (\<lambda>c. \<not> terminal c) rest" by blast
    have "c # cs = take n (c # cs) @ drop n (c # cs)" by simp
    also have "\<dots> = concat (findall (c # cs)) @ rest"
      using ih2 unfolding fa by simp
    finally show ?thesis using sent ih1 ih3 unfolding fa by auto
  qed
qed

lemma findall_append_no_terminal:
  assumes "list_all (\<lambda>c. \<not> terminal c) tail"
  shows "findall (xs @ tail) = findall xs"
proof -
  from findall_decompose [of xs] obtain rest where
    ss: "list_all is_sentence (findall xs)" and
    xs: "xs = concat (findall xs) @ rest" and
    rest: "list_all (\<lambda>c. \<not> terminal c) rest" by blast
  have "findall (xs @ tail) = findall (concat (findall xs) @ (rest @ tail))"
    using xs by (metis append.assoc)
  also have "\<dots> = findall xs @ findall (rest @ tail)"
    using ss by (rule findall_concat)
  also have "findall (rest @ tail) = []"
    using rest assms by (intro findall_no_terminal) simp
  finally show ?thesis by simp
qed

lemma sentences_are_sentences: "s \<in> set (sentences text) \<Longrightarrow> is_sentence s"
  using findall_decompose [of "normalized text"] by (simp add: sentences_def list_all_iff)

section \<open>Whitespace: strip, split and join\<close>

lemma terminal_not_space: "terminal c \<Longrightarrow> \<not> isspace c"
  by (auto simp: terminal_def isspace_def)

lemma strip_last_nonspace:
  assumes "s \<noteq> []" and "\<not> isspace (last s)"
  shows "strip s = dropWhile isspace s"
proof -
  let ?u = "dropWhile isspace s"
  have "last s \<in> set s" using assms(1) by simp
  with assms(2) have u: "?u \<noteq> []" by (auto simp: dropWhile_eq_Nil_conv)
  have "s = takeWhile isspace s @ ?u" by simp
  then have "last s = last ?u" using u by (metis last_appendR)
  with assms(2) u have "\<not> isspace (hd (rev ?u))" by (simp add: hd_rev)
  moreover have "rev ?u \<noteq> []" using u by simp
  ultimately have "dropWhile isspace (rev ?u) = rev ?u" by (cases "rev ?u") simp_all
  then show ?thesis by (simp add: strip_def)
qed

lemma strip_sentence:
  assumes "is_sentence s"
  shows "strip s = dropWhile isspace s" and "is_sentence (strip s)"
    and "strip (strip s) = strip s"
proof -
  from assms obtain run t where s: "s = run @ [t]" and t: "terminal t"
    and run: "list_all (\<lambda>c. \<not> terminal c) run"
    by (auto simp: is_sentence_snoc)
  have nsp: "\<not> isspace t" using t by (rule terminal_not_space)
  show 1: "strip s = dropWhile isspace s"
    by (rule strip_last_nonspace) (simp_all add: s nsp)
  have 2: "dropWhile isspace s = dropWhile isspace run @ [t]"
    using nsp by (simp add: s dropWhile_append)
  have "list_all (\<lambda>c. \<not> terminal c) (dropWhile isspace run)"
    using run set_dropWhileD [of _ isspace run] by (auto simp: list_all_iff)
  with t show "is_sentence (strip s)"
    unfolding 1 2 is_sentence_snoc by blast
  have "strip (strip s) = dropWhile isspace (strip s)"
    by (rule strip_last_nonspace) (simp_all add: 1 2 nsp)
  then show "strip (strip s) = strip s" by (simp add: 1)
qed

lemma strip_space_Cons: "isspace c \<Longrightarrow> strip (c # s) = strip s"
  by (simp add: strip_def)

lemma split_ws_dropWhile: "split_ws (dropWhile isspace s) = split_ws s"
  by (induction s) simp_all

lemma word_count_strip: "is_sentence s \<Longrightarrow> word_count (strip s) = word_count s"
  by (simp add: word_count_def strip_sentence(1) split_ws_dropWhile)

lemma word_count_space_Cons: "isspace c \<Longrightarrow> word_count (c # s) = word_count s"
  by (simp add: word_count_def)

lemma is_sentence_space_Cons:
  assumes "is_sentence s"
  shows "is_sentence (0x20 # s)"
proof -
  from assms obtain run t where "s = run @ [t]" "terminal t"
    "list_all (\<lambda>c. \<not> terminal c) run"
    by (auto simp: is_sentence_snoc)
  then have "0x20 # s = (0x20 # run) @ [t] \<and> terminal t \<and>
      list_all (\<lambda>c. \<not> terminal c) (0x20 # run)"
    by (simp add: terminal_def)
  then show ?thesis unfolding is_sentence_snoc by blast
qed

lemma join_Cons: "join sep (f # fs) = f @ concat (map (\<lambda>s. sep @ s) fs)"
  by (induction fs arbitrary: f) simp_all

lemma set_join: "set (join sep xs) \<subseteq> set sep \<union> \<Union> (set ` set xs)"
  by (induction sep xs rule: join.induct) auto

lemma set_strip: "set (strip s) \<subseteq> set s"
proof -
  have "set (strip s) \<subseteq> set (dropWhile isspace s)"
    unfolding strip_def using set_dropWhileD by fastforce
  also have "\<dots> \<subseteq> set s" using set_dropWhileD by fastforce
  finally show ?thesis .
qed

lemma findall_join:
  assumes "list_all is_sentence (f # fs)"
  shows "findall (join [0x20] (f # fs)) = f # map ((#) 0x20) fs"
proof -
  have "list_all is_sentence (f # map ((#) 0x20) fs)"
    using assms by (auto simp: list_all_iff is_sentence_space_Cons)
  then have "findall (concat (f # map ((#) 0x20) fs) @ []) =
      (f # map ((#) 0x20) fs) @ findall []"
    by (rule findall_concat)
  moreover have "join [0x20] (f # fs) = concat (f # map ((#) 0x20) fs)"
    by (simp add: join_Cons)
  ultimately show ?thesis by simp
qed

section \<open>The result read again\<close>

lemma set_sentences: "s \<in> set (sentences text) \<Longrightarrow> set s \<subseteq> set (normalized text)"
proof -
  assume s: "s \<in> set (sentences text)"
  from findall_decompose [of "normalized text"] obtain rest where
    "normalized text = concat (sentences text) @ rest" unfolding sentences_def by blast
  then have "set (normalized text) = \<Union> (set ` set (sentences text)) \<union> set rest"
    by (metis set_append set_concat)
  with s show ?thesis by blast
qed

lemma set_preprocess_text:
  "set (preprocess_text text m) \<subseteq> insert 0x20 (set (normalized text))"
proof
  fix c assume "c \<in> set (preprocess_text text m)"
  then have "c \<in> set [0x20] \<union> \<Union> (set ` set (filtered_sentences text m))"
    unfolding preprocess_text_eq using set_join by blast
  then consider "c = 0x20" | s where "s \<in> set (sentences text)" "c \<in> set (strip s)"
    by (auto simp: filtered_sentences_eq)
  then show "c \<in> insert 0x20 (set (normalized text))"
  proof cases
    case 1
    then show ?thesis by simp
  next
    case 2
    with set_strip [of s] set_sentences [of s "text"] show ?thesis by blast
  qed
qed

lemma normalized_preprocess_text:
  "normalized (preprocess_text text m) = preprocess_text text m"
proof -
  have "0x0A \<notin> insert 0x20 (set (normalized text))"
    "0x0D \<notin> insert 0x20 (set (normalized text))"
    by (auto simp: normalized_map)
  with set_preprocess_text [of "text" m]
  have "0x0A \<notin> set (preprocess_text text m)" "0x0D \<notin> set (preprocess_text text m)"
    by blast+
  then show ?thesis by (simp add: normalized_def replace_char_absent)
qed

lemma filtered_sentences_props:
  assumes "f \<in> set (filtered_sentences text m)"
  shows "is_sentence f" and "strip f = f" and "m \<le> word_count f"
proof -
  from assms obtain s where s: "s \<in> set (sentences text)" and m: "m \<le> word_count s"
    and f: "f = strip s" by (auto simp: filtered_sentences_eq)
  from s have sent: "is_sentence s" by (rule sentences_are_sentences)
  show "is_sentence f" "strip f = f" "m \<le> word_count f"
    unfolding f using m strip_sentence(2,3) [OF sent] word_count_strip [OF sent]
    by simp_all
qed

text \<open>
  The sentences of the result are the retained sentences, the first as it is and every
  later one behind the space that joins it to its predecessor.
\<close>

lemma sentences_preprocess_text:
  "sentences (preprocess_text text m) =
     (case filtered_sentences text m of [] \<Rightarrow> [] | f # fs \<Rightarrow> f # map ((#) 0x20) fs)"
proof (cases "filtered_sentences text m")
  case Nil
  then have "preprocess_text text m = []" by (simp add: preprocess_text_eq)
  then show ?thesis using Nil by (simp add: sentences_def normalized_map)
next
  case (Cons f fs)
  have sent: "list_all is_sentence (f # fs)"
    using filtered_sentences_props(1) [of _ "text" m] unfolding Cons list_all_iff by blast
  have "preprocess_text text m = join [0x20] (f # fs)"
    using Cons by (simp add: preprocess_text_eq)
  then have "sentences (preprocess_text text m) = findall (join [0x20] (f # fs))"
    using normalized_preprocess_text [of "text" m] by (simp add: sentences_def)
  also have "\<dots> = f # map ((#) 0x20) fs"
    using sent by (rule findall_join)
  finally show ?thesis by (simp add: Cons)
qed

lemma strip_sentences_preprocess_text:
  "map strip (sentences (preprocess_text text m)) = filtered_sentences text m"
proof (cases "filtered_sentences text m")
  case Nil
  then show ?thesis by (simp add: sentences_preprocess_text)
next
  case (Cons f fs)
  have sp: "isspace 0x20" by (simp add: isspace_def)
  have "strip g = g" if "g \<in> set (f # fs)" for g
    using filtered_sentences_props(2) [of g "text" m] that Cons by simp
  then have "map strip (f # map ((#) 0x20) fs) = f # fs"
    by (auto simp: strip_space_Cons [OF sp] map_idI)
  then show ?thesis by (simp add: sentences_preprocess_text Cons)
qed

lemma filter_sentences_preprocess_text:
  "filter (\<lambda>s. m \<le> word_count s) (sentences (preprocess_text text m)) =
     sentences (preprocess_text text m)"
proof (cases "filtered_sentences text m")
  case Nil
  then show ?thesis by (simp add: sentences_preprocess_text)
next
  case (Cons f fs)
  have sp: "isspace 0x20" by (simp add: isspace_def)
  have "m \<le> word_count g" if "g \<in> set (f # fs)" for g
    using filtered_sentences_props(3) [of g "text" m] that Cons by simp
  then have "filter (\<lambda>s. m \<le> word_count s) (f # map ((#) 0x20) fs) = f # map ((#) 0x20) fs"
    by (auto simp: filter_id_conv word_count_space_Cons [OF sp])
  then show ?thesis by (simp add: sentences_preprocess_text Cons)
qed

section \<open>Claims about the normalization\<close>

text \<open>
  C1. Normalization is idempotent: for every input string and every \<^verbatim>\<open>min_length\<close>,
  \<^verbatim>\<open>preprocess_text\<close> applied to its own result, with the same \<^verbatim>\<open>min_length\<close>,
  returns that result unchanged.
\<close>

theorem preprocess_text_idempotent:
  "preprocess_text (preprocess_text text m) m = preprocess_text text m"
proof -
  let ?out = "preprocess_text text m"
  have "filtered_sentences ?out m =
      map strip (filter (\<lambda>s. m \<le> word_count s) (sentences ?out))"
    by (rule filtered_sentences_eq)
  also have "\<dots> = map strip (sentences ?out)"
    by (simp only: filter_sentences_preprocess_text)
  also have "\<dots> = filtered_sentences text m"
    by (rule strip_sentences_preprocess_text)
  finally have "join [0x20] (filtered_sentences ?out m) = join [0x20] (filtered_sentences text m)"
    by simp
  then show ?thesis by (simp only: preprocess_text_eq [symmetric])
qed

text \<open>
  C2. Sentence-length filtering: a sentence extracted from the input is among the retained
  sentences, and so among the sentences of the output, if and only if its whitespace-split
  word count is at least the configured minimum; every other sentence is discarded. The
  default minimum is 5.
\<close>

theorem sentence_length_filter:
  assumes "s \<in> set (sentences text)"
  shows "(strip s \<in> set (filtered_sentences text m) \<longleftrightarrow> m \<le> word_count s) \<and>
         map strip (sentences (preprocess_text text m)) = filtered_sentences text m \<and>
         preprocess_text_default text = preprocess_text text 5"
proof -
  from assms have sent: "is_sentence s" by (rule sentences_are_sentences)
  have "m \<le> word_count s" if "strip s \<in> set (filtered_sentences text m)"
  proof -
    from that obtain s' where s': "s' \<in> set (sentences text)" "m \<le> word_count s'"
      and eq: "strip s = strip s'"
      by (auto simp: filtered_sentences_eq)
    from s'(1) have "is_sentence s'" by (rule sentences_are_sentences)
    then have "word_count s' = word_count (strip s')" by (simp add: word_count_strip)
    also have "\<dots> = word_count s" using sent by (simp add: eq [symmetric] word_count_strip)
    finally show ?thesis using s'(2) by simp
  qed
  moreover have "strip s \<in> set (filtered_sentences text m)" if "m \<le> word_count s"
    using that assms by (auto simp: filtered_sentences_eq)
  ultimately have "strip s \<in> set (filtered_sentences text m) \<longleftrightarrow> m \<le> word_count s"
    by blast
  then show ?thesis
    by (simp add: strip_sentences_preprocess_text preprocess_text_default_def)
qed

theorem sentence_length_filter_witness:
  "str '' Too short.'' \<in> set (sentences (str ''One two three four five. Too short. Yes!'')) \<and>
   strip (str '' Too short.'') \<notin>
     set (filtered_sentences (str ''One two three four five. Too short. Yes!'') 5) \<and>
   word_count (str '' Too short.'') = 2 \<and>
   preprocess_text_default (str ''One two three four five. Too short. Yes!'') =
     str ''One two three four five.''"
proof -
  let ?t = "str ''One two three four five. Too short. Yes!''"
  have ss: "sentences ?t =
      [str ''One two three four five.'', str '' Too short.'', str '' Yes!'']"
    by (simp add: sentences_def normalized_def replace_char_def str_def terminal_def)
  then have h: "str '' Too short.'' \<in> set (sentences ?t)" by simp
  have wc: "word_count (str '' Too short.'') = 2"
    by (simp add: word_count_def str_def isspace_def)
  have out: "preprocess_text ?t 5 = str ''One two three four five.''"
    by (simp add: preprocess_text_def str_def replace_char_def terminal_def isspace_def
        strip_def)
  from sentence_length_filter [OF h, of 5] h wc out show ?thesis by simp
qed

text \<open>
  C3. The sentences that \<^verbatim>\<open>preprocess_text\<close> extracts are runs of code points
  outside \<^verbatim>\<open>[.!?]\<close> closed by one code point of \<^verbatim>\<open>[.!?]\<close>: every one is non-empty,
  ends in a terminal mark and has no terminal mark before its last code point. The runs
  are maximal: the sentences, put one after the other, are the text (after the two
  replacements) from its start up to its last terminal mark, and what is left over
  behind them holds no terminal mark. They are exactly these runs: any way of cutting
  the text into such runs and a rest with no terminal mark is the list of sentences.
\<close>

theorem sentences_maximal_runs:
  "list_all is_sentence (sentences text) \<and>
   (\<exists>rest. normalized text = concat (sentences text) @ rest \<and>
      list_all (\<lambda>c. \<not> terminal c) rest) \<and>
   (\<forall>ss rest.
      list_all is_sentence ss \<and> list_all (\<lambda>c. \<not> terminal c) rest \<and>
      normalized text = concat ss @ rest \<longrightarrow> sentences text = ss)"
proof -
  have "sentences text = ss"
    if "list_all is_sentence ss" and "list_all (\<lambda>c. \<not> terminal c) rest"
      and "normalized text = concat ss @ rest" for ss rest
  proof -
    have "sentences text = findall (concat ss @ rest)"
      using that(3) by (simp add: sentences_def)
    also have "\<dots> = ss @ findall rest" using that(1) by (rule findall_concat)
    also have "findall rest = []" using that(2) by (rule findall_no_terminal)
    finally show ?thesis by simp
  qed
  with findall_decompose [of "normalized text"] show ?thesis
    unfolding sentences_def by blast
qed

theorem sentences_maximal_runs_witness:
  "list_all is_sentence [str ''Is it so?'', str '' Yes.'', str ''.''] \<and>
   list_all (\<lambda>c. \<not> terminal c) (str '' and'') \<and>
   normalized (str ''Is it so? Yes.. and'') =
     concat [str ''Is it so?'', str '' Yes.'', str ''.''] @ str '' and'' \<and>
   sentences (str ''Is it so? Yes.. and'') = [str ''Is it so?'', str '' Yes.'', str ''.'']"
proof -
  have h: "list_all is_sentence [str ''Is it so?'', str '' Yes.'', str ''.''] \<and>
      list_all (\<lambda>c. \<not> terminal c) (str '' and'') \<and>
      normalized (str ''Is it so? Yes.. and'') =
        concat [str ''Is it so?'', str '' Yes.'', str ''.''] @ str '' and''"
    by (simp add: is_sentence_def str_def terminal_def normalized_def replace_char_def)
  from sentences_maximal_runs [of "str ''Is it so? Yes.. and''"]
  have "sentences (str ''Is it so? Yes.. and'') = [str ''Is it so?'', str '' Yes.'', str ''.'']"
    using h by blast
  with h show ?thesis by blast
qed

text \<open>
  C4. Order-preserving rejoin: the result is the retained sentences, each without its
  leading whitespace and with none at its end, put one after the other with exactly one
  space between two neighbours and nothing before the first or behind the last; the
  retained sentences are the sentences of the input that are long enough, in the order
  in which the input has them.
\<close>

theorem order_preserving_rejoin:
  "preprocess_text text m =
     (case filter (\<lambda>s. m \<le> word_count s) (sentences text) of
        [] \<Rightarrow> []
      | s # ss \<Rightarrow> dropWhile isspace s @ concat (map (\<lambda>t. 0x20 # dropWhile isspace t) ss)) \<and>
   list_all
     (\<lambda>s. dropWhile isspace s \<noteq> [] \<and> \<not> isspace (hd (dropWhile isspace s)) \<and>
          \<not> isspace (last (dropWhile isspace s)))
     (sentences text) \<and>
   subseq (filter (\<lambda>s. m \<le> word_count s) (sentences text)) (sentences text) \<and>
   preprocess_text (str ''  One two three four five.   No. Six seven eight nine ten!  '') 5 =
     str ''One two three four five. Six seven eight nine ten!''"
proof -
  let ?kept = "filter (\<lambda>s. m \<le> word_count s) (sentences text)"
  have drop: "strip s = dropWhile isspace s" if "s \<in> set (sentences text)" for s
    using that by (intro strip_sentence(1) sentences_are_sentences)
  have "map strip ?kept = map (dropWhile isspace) ?kept"
    by (rule map_cong) (auto intro: drop)
  then have out: "preprocess_text text m = join [0x20] (map (dropWhile isspace) ?kept)"
    by (simp only: preprocess_text_eq filtered_sentences_eq)
  have 1: "preprocess_text text m =
      (case ?kept of
         [] \<Rightarrow> []
       | s # ss \<Rightarrow> dropWhile isspace s @ concat (map (\<lambda>t. 0x20 # dropWhile isspace t) ss))"
  proof (cases ?kept)
    case Nil
    then show ?thesis by (simp add: out)
  next
    case (Cons s ss)
    then show ?thesis by (simp add: out join_Cons comp_def)
  qed
  have "dropWhile isspace s \<noteq> [] \<and> \<not> isspace (hd (dropWhile isspace s)) \<and>
      \<not> isspace (last (dropWhile isspace s))" if "s \<in> set (sentences text)" for s
  proof -
    from that have "is_sentence s" by (rule sentences_are_sentences)
    then have "is_sentence (dropWhile isspace s)"
      using strip_sentence(1,2) [of s] by simp
    then have ne: "dropWhile isspace s \<noteq> []" and "terminal (last (dropWhile isspace s))"
      by (simp_all add: is_sentence_def)
    then have "\<not> isspace (last (dropWhile isspace s))" by (simp add: terminal_not_space)
    moreover have "\<not> isspace (hd (dropWhile isspace s))" using ne by (rule hd_dropWhile)
    ultimately show ?thesis using ne by simp
  qed
  then have 2: "list_all
      (\<lambda>s. dropWhile isspace s \<noteq> [] \<and> \<not> isspace (hd (dropWhile isspace s)) \<and>
           \<not> isspace (last (dropWhile isspace s)))
      (sentences text)"
    unfolding list_all_iff by blast
  have 3: "subseq ?kept (sentences text)" by (rule subseq_filter_left)
  have 4: "preprocess_text (str ''  One two three four five.   No. Six seven eight nine ten!  '') 5 =
      str ''One two three four five. Six seven eight nine ten!''"
    by (simp add: preprocess_text_def str_def replace_char_def terminal_def isspace_def
        strip_def)
  from 1 2 3 4 show ?thesis by (intro conjI)
qed

text \<open>
  C5. The result holds no newline and no carriage return: the two replacements turn every
  newline and every carriage return of the input into one space before the sentences are
  extracted, and nothing later brings one back.
\<close>

theorem no_newlines_in_output:
  "0x0A \<notin> set (preprocess_text text m) \<and> 0x0D \<notin> set (preprocess_text text m) \<and>
   normalized text = map (\<lambda>c. if c = 0x0A \<or> c = 0x0D then 0x20 else c) text"
proof -
  have "0x0A \<notin> insert 0x20 (set (normalized text))"
    "0x0D \<notin> insert 0x20 (set (normalized text))"
    by (auto simp: normalized_map)
  with set_preprocess_text [of "text" m] show ?thesis
    by (auto simp: normalized_map)
qed

text \<open>
  C9. Text behind the last terminal mark is dropped: appending to the input any text with
  no terminal mark leaves the result as it was, and an input with no terminal mark at
  all gives the empty string.
\<close>

theorem trailing_text_dropped:
  assumes "list_all (\<lambda>c. \<not> terminal c) tail"
  shows "preprocess_text (text @ tail) m = preprocess_text text m \<and>
         preprocess_text tail m = []"
proof -
  have nt: "list_all (\<lambda>c. \<not> terminal c) (normalized tail)"
    using assms by (rule normalized_no_terminal)
  have "sentences (text @ tail) = sentences text"
    unfolding sentences_def normalized_append
    using nt by (rule findall_append_no_terminal)
  moreover have "sentences tail = []"
    unfolding sentences_def using nt by (rule findall_no_terminal)
  ultimately show ?thesis by (simp add: preprocess_text_eq filtered_sentences_eq)
qed

theorem trailing_text_dropped_witness:
  "list_all (\<lambda>c. \<not> terminal c) (str '' and then'') \<and>
   preprocess_text (str ''One two three four five.'' @ str '' and then'') 5 =
     preprocess_text (str ''One two three four five.'') 5 \<and>
   preprocess_text (str ''One two three four five.'') 5 = str ''One two three four five.'' \<and>
   preprocess_text (str '' and then'') 5 = []"
proof -
  have h: "list_all (\<lambda>c. \<not> terminal c) (str '' and then'')"
    by (simp add: str_def terminal_def)
  have "preprocess_text (str ''One two three four five.'') 5 = str ''One two three four five.''"
    by (simp add: preprocess_text_def str_def replace_char_def terminal_def isspace_def
        strip_def)
  with h trailing_text_dropped [OF h, of "str ''One two three four five.''" 5]
  show ?thesis by simp
qed

text \<open>
  C10. Interior whitespace is not collapsed: of every retained sentence only the leading
  whitespace goes (a sentence ends in its terminal mark, so it has no trailing
  whitespace), and everything from its first code point that is not whitespace is in the
  result as it is. A space followed by a newline comes out as two spaces, and two spaces
  stay two spaces.
\<close>

theorem interior_whitespace_kept:
  "preprocess_text text m =
     join [0x20]
       (map (dropWhile isspace) (filter (\<lambda>s. m \<le> word_count s) (sentences text))) \<and>
   preprocess_text (str ''One '' @ [0x0A] @ str ''two  three four five.'') 5 =
     str ''One  two  three four five.''"
proof -
  have "map strip (filter (\<lambda>s. m \<le> word_count s) (sentences text)) =
      map (dropWhile isspace) (filter (\<lambda>s. m \<le> word_count s) (sentences text))"
    by (rule map_cong) (auto intro: strip_sentence(1) sentences_are_sentences)
  then have "preprocess_text text m =
      join [0x20]
        (map (dropWhile isspace) (filter (\<lambda>s. m \<le> word_count s) (sentences text)))"
    by (simp only: preprocess_text_eq filtered_sentences_eq)
  moreover have "preprocess_text (str ''One '' @ [0x0A] @ str ''two  three four five.'') 5 =
      str ''One  two  three four five.''"
    by (simp add: preprocess_text_def str_def replace_char_def terminal_def isspace_def
        strip_def)
  ultimately show ?thesis by blast
qed

section \<open>The configuration of the chunker\<close>

text \<open>
  C7. The notebook configures the chunker with \<^verbatim>\<open>similarity_threshold = 0.3\<close>,
  \<^verbatim>\<open>skip_window = 5\<close> and \<^verbatim>\<open>chunk_size = 256\<close>.
\<close>

theorem chunker_parameters:
  "similarity_threshold chunker = 0.3 \<and> skip_window chunker = 5 \<and> chunk_size chunker = 256"
  by (simp add: chunker_def)

end
